theory Spec2Isabelle
  imports Complex_Main "HOL-Library.Word" "HOL-Library.Sublist"
begin

section \<open>JavaScript values used by custom-logic.js\<close>

text \<open>
  A JavaScript string is a sequence of UTF-16 code units. A JavaScript number is an
  IEEE double, here the real it denotes: the infinities and NaN are left out, so a
  result beyond the largest double stays a real. Comparisons, \<^verbatim>\<open>Math.abs\<close>, \<^verbatim>\<open>Math.max\<close>
  and \<^verbatim>\<open>Math.min\<close> are exact on doubles. An addition or a subtraction gives the exact
  result rounded to the nearest double, ties to the even mantissa: the line loop,
  whose branches and stored widths depend on it, rounds that way. The geometry of the
  highlight, where nothing is compared after rounding, is kept in exact arithmetic.
\<close>

type_synonym code_unit = "16 word"
type_synonym jsstring = "code_unit list"

definition js :: "string \<Rightarrow> jsstring" where
  \<comment> \<open>an ASCII literal of the source as a JavaScript string\<close>
  "js s = map of_char s"

definition SP :: code_unit where
  \<comment> \<open>the space character \<^verbatim>\<open>' '\<close>\<close>
  "SP = 32"

definition is_ws :: "code_unit \<Rightarrow> bool" where
  \<comment> \<open>the class \<^verbatim>\<open>\s\<close> of a regular expression, which is also what \<^verbatim>\<open>trim()\<close> strips:
     WhiteSpace and LineTerminator of ECMAScript\<close>
  "is_ws c = (c \<in> {9, 10, 11, 12, 13, 32, 160, 5760, 8232, 8233, 8239, 8287, 12288, 65279}
               \<or> (8192 \<le> c \<and> c \<le> 8202))"

function collapse_ws :: "jsstring \<Rightarrow> jsstring" where
  \<comment> \<open>\<^verbatim>\<open>s.replace(/\s+/g, ' ')\<close>: every maximal run of whitespace becomes one space\<close>
  "collapse_ws [] = []"
| "collapse_ws (c # cs) =
     (if is_ws c then SP # collapse_ws (dropWhile is_ws cs) else c # collapse_ws cs)"
  by pat_completeness auto
termination
  by (relation "measure length") (auto simp: less_Suc_eq_le length_dropWhile_le)

definition trim_end :: "jsstring \<Rightarrow> jsstring" where
  "trim_end s = rev (dropWhile is_ws (rev s))"

definition trim :: "jsstring \<Rightarrow> jsstring" where
  \<comment> \<open>\<^verbatim>\<open>s.trim()\<close>\<close>
  "trim s = trim_end (dropWhile is_ws s)"

definition normalize_text :: "jsstring \<Rightarrow> jsstring" where
  \<comment> \<open>\<^verbatim>\<open>l.text.replace(/\s+/g, ' ').trim()\<close>\<close>
  "normalize_text s = trim (collapse_ws s)"

section \<open>Double arithmetic\<close>

definition rne :: "real \<Rightarrow> int" where
  \<comment> \<open>the nearest integer, a tie going to the even one\<close>
  "rne t =
     (let f = \<lfloor>t\<rfloor>; r = t - of_int f
      in if r < 1 / 2 then f else if 1 / 2 < r then f + 1 else if even f then f else f + 1)"

definition expo :: "real \<Rightarrow> int" where
  \<comment> \<open>the binary exponent of a positive number, not below the one of the subnormal
     doubles\<close>
  "expo x = max \<lfloor>log 2 x\<rfloor> (- 1022)"

definition round_mag :: "real \<Rightarrow> real" where
  \<comment> \<open>a positive number rounded to 53 significant bits: to a multiple of
     \<open>2 powi (expo x - 52)\<close>\<close>
  "round_mag x = of_int (rne (x / 2 powi (expo x - 52))) * 2 powi (expo x - 52)"

definition round_double :: "real \<Rightarrow> real" where
  \<comment> \<open>round to nearest, ties to even, of IEEE 754 binary64\<close>
  "round_double x = (if x = 0 then 0 else sgn x * round_mag \<bar>x\<bar>)"

definition add_double :: "real \<Rightarrow> real \<Rightarrow> real" where
  \<comment> \<open>\<^verbatim>\<open>a + b\<close>\<close>
  "add_double a b = round_double (a + b)"

definition sub_double :: "real \<Rightarrow> real \<Rightarrow> real" where
  \<comment> \<open>\<^verbatim>\<open>a - b\<close>\<close>
  "sub_double a b = round_double (a - b)"

section \<open>Text fragments and logical lines\<close>

record Transform =
  tx0 :: real
  tx1 :: real
  tx2 :: real
  tx3 :: real
  tx4 :: real
  tx5 :: real

text \<open>
  An item of \<^verbatim>\<open>textContent.items\<close>. A field that may be missing (\<^verbatim>\<open>undefined\<close> or
  \<^verbatim>\<open>null\<close>) is an option.
\<close>

record TextItem =
  item_str :: "jsstring option"
  item_transform :: Transform
  item_width :: "real option"
  item_height :: "real option"

text \<open>An entry of \<^verbatim>\<open>corpus\<close>: \<^verbatim>\<open>{text, pageNum, x, y, width, height}\<close>.\<close>

record Line =
  line_text :: jsstring
  line_x :: real
  line_y :: real
  line_width :: real
  line_height :: real
  line_pageNum :: nat

definition item_x :: "TextItem \<Rightarrow> real" where
  \<comment> \<open>\<^verbatim>\<open>const x = tx[4]\<close>\<close>
  "item_x item = tx4 (item_transform item)"

definition item_y :: "TextItem \<Rightarrow> real" where
  \<comment> \<open>\<^verbatim>\<open>const y = tx[5]\<close>\<close>
  "item_y item = tx5 (item_transform item)"

definition item_w :: "TextItem \<Rightarrow> real" where
  \<comment> \<open>\<^verbatim>\<open>const w = item.width || 0\<close>\<close>
  "item_w item = (case item_width item of None \<Rightarrow> 0 | Some w \<Rightarrow> if w = 0 then 0 else w)"

definition item_h :: "TextItem \<Rightarrow> real" where
  \<comment> \<open>\<^verbatim>\<open>const h = (item.height != null) ? item.height : Math.max(Math.abs(tx[3]), 10)\<close>\<close>
  "item_h item =
     (case item_height item of
        Some h \<Rightarrow> h
      | None \<Rightarrow> max \<bar>tx3 (item_transform item)\<bar> 10)"

definition item_s :: "TextItem \<Rightarrow> jsstring" where
  \<comment> \<open>\<^verbatim>\<open>const str = item.str || ''\<close>\<close>
  "item_s item = (case item_str item of None \<Rightarrow> [] | Some s \<Rightarrow> if s = [] then [] else s)"

definition new_line :: "nat \<Rightarrow> TextItem \<Rightarrow> Line" where
  \<comment> \<open>\<^verbatim>\<open>current = { text: str, x, y, width: w, height: h, pageNum: i }\<close>\<close>
  "new_line i item =
     \<lparr>line_text = item_s item, line_x = item_x item, line_y = item_y item,
      line_width = item_w item, line_height = item_h item, line_pageNum = i\<rparr>"

definition merge_item :: "Line \<Rightarrow> TextItem \<Rightarrow> Line" where
  \<comment> \<open>the branch \<^verbatim>\<open>Math.abs(current.y - y) <= 3\<close> of the loop, in the order of its
     assignments\<close>
  "merge_item current item =
     (let rightEdge =
            max (add_double (line_x current) (line_width current))
              (add_double (item_x item) (item_w item));
          c1 = current\<lparr>line_width := sub_double rightEdge (line_x current)\<rparr>;
          c2 = c1\<lparr>line_text := line_text c1 @ SP # item_s item\<rparr>
      in c2\<lparr>line_height := max (line_height c2) (item_h item)\<rparr>)"

text \<open>
  One iteration of \<^verbatim>\<open>for (const item of textContent.items)\<close>. The state is the pair of
  \<^verbatim>\<open>lines\<close> and \<^verbatim>\<open>current\<close> (\<^verbatim>\<open>null\<close> is \<open>None\<close>).
\<close>

fun line_step :: "nat \<Rightarrow> Line list \<times> Line option \<Rightarrow> TextItem \<Rightarrow> Line list \<times> Line option" where
  "line_step i (lines, None) item = (lines, Some (new_line i item))"
| "line_step i (lines, Some current) item =
     (if \<bar>sub_double (line_y current) (item_y item)\<bar> \<le> 3
      then (lines, Some (merge_item current item))
      else (lines @ [current], Some (new_line i item)))"

definition run_items :: "nat \<Rightarrow> TextItem list \<Rightarrow> Line list \<times> Line option" where
  "run_items i items = foldl (line_step i) ([], None) items"

definition page_lines :: "nat \<Rightarrow> TextItem list \<Rightarrow> Line list" where
  \<comment> \<open>the loop followed by \<^verbatim>\<open>if (current) lines.push(current)\<close>\<close>
  "page_lines i items =
     (case run_items i items of
        (lines, None) \<Rightarrow> lines
      | (lines, Some current) \<Rightarrow> lines @ [current])"

definition normalize_line :: "Line \<Rightarrow> Line list" where
  \<comment> \<open>the body of \<^verbatim>\<open>for (const l of lines)\<close>: what it pushes to \<^verbatim>\<open>out\<close>\<close>
  "normalize_line l =
     (let text = normalize_text (line_text l)
      in if length text > 0 then [l\<lparr>line_text := text\<rparr>] else [])"

definition reconstruct :: "nat \<Rightarrow> TextItem list \<Rightarrow> Line list" where
  \<comment> \<open>what one page adds to \<^verbatim>\<open>out\<close>\<close>
  "reconstruct i items = concat (map normalize_line (page_lines i items))"

section \<open>The decoder and the corpus\<close>

datatype js_error = JsError string

record Page =
  page_getTextContent :: "js_error + TextItem list"
  page_render :: "js_error + unit"

text \<open>
  The document that \<^verbatim>\<open>pdfjsLib.getDocument\<close> resolves to. A promise of PDF.js is its
  outcome: \<open>Inl\<close> a rejection, \<open>Inr\<close> the value.
\<close>

record PdfDocument =
  numPages :: nat
  getPage :: "nat \<Rightarrow> js_error + Page"

text \<open>
  The page loop of \<^verbatim>\<open>extractTextCorpus\<close>, over the page numbers still to visit; \<open>out\<close>
  is the array built so far. A rejected \<^verbatim>\<open>await\<close> leaves the function at once.
\<close>

fun extract_pages :: "PdfDocument \<Rightarrow> Line list \<Rightarrow> nat list \<Rightarrow> js_error + Line list" where
  "extract_pages pdf out [] = Inr out"
| "extract_pages pdf out (i # rest) =
     (case getPage pdf i of
        Inl e \<Rightarrow> Inl e
      | Inr page \<Rightarrow>
          (case page_getTextContent page of
             Inl e \<Rightarrow> Inl e
           | Inr items \<Rightarrow> extract_pages pdf (out @ reconstruct i items) rest))"

definition extractTextCorpus :: "PdfDocument \<Rightarrow> js_error + Line list" where
  \<comment> \<open>\<^verbatim>\<open>for (let i = 1; i <= pdf.numPages; i++)\<close>\<close>
  "extractTextCorpus pdf = extract_pages pdf [] [1..<Suc (numPages pdf)]"

section \<open>Escaping and the results list\<close>

definition escape_table :: "code_unit \<rightharpoonup> jsstring" where
  \<comment> \<open>\<^verbatim>\<open>{ '&':'&amp;','<':'&lt;','>':'&gt;','"':'&quot;' }\<close>, the keys by their code
     units: 38 is \<^verbatim>\<open>&\<close>, 60 is \<^verbatim>\<open><\<close>, 62 is \<^verbatim>\<open>>\<close> and 34 is \<^verbatim>\<open>"\<close>\<close>
  "escape_table =
     map_of [(38, js ''&amp;''), (60, js ''&lt;''), (62, js ''&gt;''), (34, js ''&quot;'')]"

definition escape_char :: "code_unit \<Rightarrow> jsstring" where
  \<comment> \<open>what \<^verbatim>\<open>replace(/[&<>"]/g, ch => table[ch])\<close> puts for one code unit; a callback
     that returns \<^verbatim>\<open>undefined\<close> would insert that word\<close>
  "escape_char ch =
     (if ch \<in> {38, 60, 62, 34}
      then (case escape_table ch of Some r \<Rightarrow> r | None \<Rightarrow> js ''undefined'')
      else [ch])"

definition escapeHtml :: "jsstring \<Rightarrow> jsstring" where
  "escapeHtml s = concat (map escape_char s)"

record Match =
  match_item :: Line
  match_score :: real

text \<open>
  A button of the results list: \<^verbatim>\<open>`${idx + 1}. Page ${item.pageNum}${score} - ${escapeHtml(preview)}`\<close>
  and the line its click handler navigates to.
\<close>

record Entry =
  entry_number :: nat
  entry_page :: nat
  entry_score :: real
  entry_html :: jsstring
  entry_target :: Line

text \<open>
  The content of the results panel: one of the three notes \<^verbatim>\<open>'No results yet.'\<close>,
  \<^verbatim>\<open>'No matches found.'\<close> and \<^verbatim>\<open>'No matches.'\<close>, or the list of buttons.
\<close>

datatype panel =
    PanelNoResultsYet
  | PanelNoMatchesFound
  | PanelNoMatches
  | PanelMatches "Entry list"

definition preview :: "jsstring \<Rightarrow> jsstring" where
  \<comment> \<open>\<^verbatim>\<open>item.text.length > 160 ? item.text.slice(0, 157) + '...' : item.text\<close>, the
     ellipsis being the single code unit U+2026\<close>
  "preview t = (if length t > 160 then take 157 t @ [8230] else t)"

definition render_entry :: "nat \<times> Match \<Rightarrow> Entry" where
  "render_entry im =
     (case im of (idx, m) \<Rightarrow>
        \<lparr>entry_number = idx + 1, entry_page = line_pageNum (match_item m),
         entry_score = match_score m,
         entry_html = escapeHtml (preview (line_text (match_item m))),
         entry_target = match_item m\<rparr>)"

section \<open>The session\<close>

text \<open>
  The texts of the status line, each a template of the source with the values it
  interpolates:
  \<^item> \<open>StNoPdfLoaded\<close>: \<^verbatim>\<open>'No PDF loaded.'\<close>
  \<^item> \<open>StReading name\<close>: \<^verbatim>\<open>`Reading ${file.name}...`\<close>
  \<^item> \<open>StPdfLoaded n\<close>: \<^verbatim>\<open>`PDF loaded - ${gPdf.numPages} pages. Extracting text ...`\<close>
  \<^item> \<open>StExtracted n\<close>: \<^verbatim>\<open>`Extracted ${corpus.length} lines. Ready to search.`\<close>
  \<^item> \<open>StErrorLoading\<close>: \<^verbatim>\<open>'Error loading PDF. See console.'\<close>
  \<^item> \<open>StSearching q\<close>: \<^verbatim>\<open>`Searching for: "${q}" ...`\<close>
  \<^item> \<open>StNoMatchesFound\<close>: \<^verbatim>\<open>'No matches found.'\<close>
  \<^item> \<open>StFound n k\<close>: \<^verbatim>\<open>`Found ${results.length} matches. Showing top ${top.length}.`\<close>
\<close>

datatype status_msg =
    StNoPdfLoaded
  | StReading jsstring
  | StPdfLoaded nat
  | StExtracted nat
  | StErrorLoading
  | StSearching jsstring
  | StNoMatchesFound
  | StFound nat nat

text \<open>
  The globals \<^verbatim>\<open>gPdf\<close>, \<^verbatim>\<open>corpus\<close>, \<^verbatim>\<open>renderedPages\<close> and the parts of the page the
  functions write: the page wrappers of \<^verbatim>\<open>#pdf-container\<close> by page number, the results
  panel, the status line (a template and the values it interpolates), the page count
  (\<open>None\<close> is \<^verbatim>\<open>'pages: ?'\<close>), the messages shown by \<^verbatim>\<open>alert\<close> and what went to the
  console.
\<close>

record Session =
  gPdf :: "PdfDocument option"
  corpus :: "Line list"
  renderedPages :: "nat set"
  pdfContainer :: "nat list"
  resultsPanel :: panel
  status :: status_msg
  pageCountDisplay :: "nat option"
  alerts :: "jsstring list"
  console :: "js_error list"

record File =
  file_type :: jsstring
  file_name :: jsstring
  file_arrayBuffer :: "js_error + 8 word list"

definition setStatus :: "status_msg \<Rightarrow> Session \<Rightarrow> Session" where
  "setStatus msg s = s\<lparr>status := msg\<rparr>"

definition alert :: "jsstring \<Rightarrow> Session \<Rightarrow> Session" where
  "alert msg s = s\<lparr>alerts := alerts s @ [msg]\<rparr>"

definition console_error :: "js_error \<Rightarrow> Session \<Rightarrow> Session" where
  "console_error e s = s\<lparr>console := console s @ [e]\<rparr>"

definition clearAll :: "Session \<Rightarrow> Session" where
  "clearAll s =
     setStatus StNoPdfLoaded
       (s\<lparr>gPdf := None, corpus := [], renderedPages := {}, pdfContainer := [],
          resultsPanel := PanelNoResultsYet\<rparr>)
       \<lparr>pageCountDisplay := None\<rparr>"

definition renderPage :: "Session \<Rightarrow> nat \<Rightarrow> Session \<times> js_error option" where
  \<comment> \<open>the state it leaves and the rejection, if any\<close>
  "renderPage s pageNum =
     (if pageNum \<in> set (pdfContainer s) then (s, None)
      else
        (case gPdf s of
           None \<Rightarrow> (s, Some (JsError ''TypeError''))
         | Some pdf \<Rightarrow>
             (case getPage pdf pageNum of
                Inl e \<Rightarrow> (s, Some e)
              | Inr page \<Rightarrow>
                  (let s1 = s\<lparr>pdfContainer := pdfContainer s @ [pageNum]\<rparr>
                   in case page_getTextContent page of
                        Inl e \<Rightarrow> (s1, Some e)
                      | Inr items \<Rightarrow>
                          (case page_render page of
                             Inl e \<Rightarrow> (s1, Some e)
                           | Inr u \<Rightarrow>
                               (s1\<lparr>renderedPages := insert pageNum (renderedPages s1)\<rparr>,
                                None))))))"

definition ensurePageRendered :: "Session \<Rightarrow> nat \<Rightarrow> Session" where
  \<comment> \<open>the render queue is idle when the call starts\<close>
  "ensurePageRendered s pageNum =
     (if gPdf s = None then s
      else if pageNum \<in> set (pdfContainer s) then s
      else
        (case renderPage s pageNum of
           (s1, None) \<Rightarrow> s1
         | (s1, Some err) \<Rightarrow> console_error err s1))"

definition load_try :: "(8 word list \<Rightarrow> js_error + PdfDocument) \<Rightarrow> Session \<Rightarrow> 8 word list
    \<Rightarrow> Session \<times> js_error option" where
  \<comment> \<open>the \<^verbatim>\<open>try\<close> block of \<^verbatim>\<open>loadPdfFile\<close>: the state when it ends or throws\<close>
  "load_try getDocument s arrayBuffer =
     (case getDocument arrayBuffer of
        Inl err \<Rightarrow> (s, Some err)
      | Inr pdf \<Rightarrow>
          (let s1 = s\<lparr>gPdf := Some pdf\<rparr>;
               s2 = s1\<lparr>pageCountDisplay := Some (numPages pdf)\<rparr>;
               s3 = setStatus (StPdfLoaded (numPages pdf)) s2
           in case extractTextCorpus pdf of
                Inl err \<Rightarrow> (s3, Some err)
              | Inr c \<Rightarrow>
                  (let s4 = s3\<lparr>corpus := c\<rparr>;
                       s5 = setStatus (StExtracted (length c)) s4
                   in (ensurePageRendered s5 1, None))))"

definition loadPdfFile :: "(8 word list \<Rightarrow> js_error + PdfDocument) \<Rightarrow> Session \<Rightarrow> File option
    \<Rightarrow> Session \<times> js_error option" where
  \<comment> \<open>the session it leaves, and the rejection of its promise, if any\<close>
  "loadPdfFile getDocument s file =
     (case file of
        None \<Rightarrow> (s, None)
      | Some f \<Rightarrow>
          if file_type f \<noteq> js ''application/pdf''
          then (alert (js ''Please provide a PDF file.'') s, None)
          else
            (let s1 = setStatus (StReading (file_name f)) (clearAll s)
             in case file_arrayBuffer f of
                  Inl err \<Rightarrow> (s1, Some err)
                | Inr arrayBuffer \<Rightarrow>
                    (case load_try getDocument s1 arrayBuffer of
                       (s2, None) \<Rightarrow> (s2, None)
                     | (s2, Some err) \<Rightarrow>
                         (setStatus StErrorLoading (console_error err s2), None))))"

section \<open>Search\<close>

record FuseOptions =
  opt_keys :: "string list"
  opt_threshold :: real
  opt_includeScore :: bool
  opt_ignoreLocation :: bool
  opt_findAllMatches :: bool
  opt_minMatchCharLength :: nat
  opt_distance :: nat

text \<open>
  Fuse.js is a library: \<^verbatim>\<open>new Fuse(corpus, options).search(q)\<close> is a parameter of the
  model, which returns an array. So is \<^verbatim>\<open>String.prototype.toLowerCase\<close>, the case
  mapping of Unicode.
\<close>

type_synonym fuse = "Line list \<Rightarrow> FuseOptions \<Rightarrow> jsstring \<Rightarrow> Match list"

fun str_includes :: "jsstring \<Rightarrow> jsstring \<Rightarrow> bool" where
  \<comment> \<open>\<^verbatim>\<open>text.includes(q)\<close>\<close>
  "str_includes [] q = (q = [])"
| "str_includes (c # cs) q = (prefix q (c # cs) \<or> str_includes cs q)"

definition fallback_results :: "(jsstring \<Rightarrow> jsstring) \<Rightarrow> Line list \<Rightarrow> jsstring \<Rightarrow> Match list" where
  \<comment> \<open>the body of \<^verbatim>\<open>if (!results || results.length === 0)\<close>\<close>
  "fallback_results toLowerCase c q =
     (let ql = toLowerCase q
      in filter (\<lambda>r. str_includes (toLowerCase (line_text (match_item r))) ql)
           (map (\<lambda>item. \<lparr>match_item = item, match_score = 1\<rparr>) c))"

definition search_results :: "fuse \<Rightarrow> (jsstring \<Rightarrow> jsstring) \<Rightarrow> Line list \<Rightarrow> jsstring \<Rightarrow> real
    \<Rightarrow> Match list" where
  \<comment> \<open>\<^verbatim>\<open>results\<close> after the fallback\<close>
  "search_results fuse_search toLowerCase c q threshold =
     (let results =
            fuse_search c
              \<lparr>opt_keys = [''text''], opt_threshold = threshold, opt_includeScore = True,
               opt_ignoreLocation = True, opt_findAllMatches = True,
               opt_minMatchCharLength = min 3 (length q), opt_distance = 1000\<rparr> q
      in if length results = 0 then fallback_results toLowerCase c q else results)"

definition renderResults :: "Match list \<Rightarrow> Session \<Rightarrow> Session" where
  "renderResults matches s =
     (if length matches = 0 then s\<lparr>resultsPanel := PanelNoMatches\<rparr>
      else s\<lparr>resultsPanel := PanelMatches (map render_entry (enumerate 0 matches))\<rparr>)"

definition runSearch :: "fuse \<Rightarrow> (jsstring \<Rightarrow> jsstring) \<Rightarrow> jsstring \<Rightarrow> real \<Rightarrow> Session \<Rightarrow> Session" where
  \<comment> \<open>\<open>box_value\<close> is \<^verbatim>\<open>searchBox.value\<close>, \<open>threshold\<close> is \<^verbatim>\<open>parseFloat(thresholdInput.value)\<close>\<close>
  "runSearch fuse_search toLowerCase box_value threshold s =
     (let q = trim box_value
      in if gPdf s = None then alert (js ''Please load a PDF first.'') s
         else if length q < 1 then alert (js ''Type a search phrase.'') s
         else
           (let s1 = setStatus (StSearching q) s;
                results = search_results fuse_search toLowerCase (corpus s1) q threshold
            in if length results = 0
               then setStatus StNoMatchesFound (s1\<lparr>resultsPanel := PanelNoMatchesFound\<rparr>)
               else
                 (let top = take 30 results
                  in setStatus (StFound (length results) (length top))
                       (renderResults top s1))))"

section \<open>Highlighting\<close>

record Rect =
  rect_left :: real
  rect_top :: real
  rect_width :: real
  rect_height :: real

text \<open>
  An element of the page: its class list, its \<^verbatim>\<open>style\<close> box in pixels when it has one,
  and its children.
\<close>

datatype Element = Element (el_classes: "jsstring list") (el_style: "Rect option")
  (el_children: "Element list")

definition is_highlight :: "Element \<Rightarrow> bool" where
  \<comment> \<open>the selector \<^verbatim>\<open>.highlight\<close>\<close>
  "is_highlight e = (js ''highlight'' \<in> set (el_classes e))"

fun querySelectorAll_highlight :: "Element \<Rightarrow> Element list" where
  \<comment> \<open>\<^verbatim>\<open>wrapper.querySelectorAll('.highlight')\<close>: the descendants, in document order\<close>
  "querySelectorAll_highlight (Element cls st kids) =
     concat (map (\<lambda>k. (if is_highlight k then [k] else []) @ querySelectorAll_highlight k) kids)"

fun remove_highlights :: "Element \<Rightarrow> Element" where
  \<comment> \<open>\<^verbatim>\<open>existing.forEach(e => e.remove())\<close>: each match leaves its parent\<close>
  "remove_highlights (Element cls st kids) =
     Element cls st (map remove_highlights (filter (\<lambda>k. \<not> is_highlight k) kids))"

definition appendChild :: "Element \<Rightarrow> Element \<Rightarrow> Element" where
  "appendChild parent child =
     Element (el_classes parent) (el_style parent) (el_children parent @ [child])"

text \<open>
  The \<^verbatim>\<open>item\<close> of \<^verbatim>\<open>highlightMatch\<close>: a property that is \<^verbatim>\<open>undefined\<close> takes the default
  of the destructuring \<^verbatim>\<open>{ x=0, y=0, width=50, height=12 }\<close>.
\<close>

record Box =
  box_x :: "real option"
  box_y :: "real option"
  box_width :: "real option"
  box_height :: "real option"

definition box_of_line :: "Line \<Rightarrow> Box" where
  "box_of_line l =
     \<lparr>box_x = Some (line_x l), box_y = Some (line_y l),
      box_width = Some (line_width l), box_height = Some (line_height l)\<rparr>"

definition default_to :: "real \<Rightarrow> real option \<Rightarrow> real" where
  "default_to d v = (case v of None \<Rightarrow> d | Some r \<Rightarrow> r)"

text \<open>
  The viewport of PDF.js is a library object: its method that converts a rectangle
  \<open>(x1, y1, x2, y2)\<close> of the document to the surface is a parameter of the model. It
  returns the two converted corners, or throws (\<open>Inl\<close>), as it does on a malformed
  viewport or box.
\<close>

record Viewport =
  convertToViewportRectangle ::
    "real \<times> real \<times> real \<times> real \<Rightarrow> js_error + real \<times> real \<times> real \<times> real"

definition surface_rect :: "Viewport \<Rightarrow> Box \<Rightarrow> js_error + Rect" where
  \<comment> \<open>the geometry of \<^verbatim>\<open>highlightMatch\<close>: from the destructuring to \<^verbatim>\<open>const h\<close>\<close>
  "surface_rect viewport item =
     (let x = default_to 0 (box_x item); y = default_to 0 (box_y item);
          width = default_to 50 (box_width item); height = default_to 12 (box_height item)
      in case convertToViewportRectangle viewport (x, y, x + width, y + height) of
           Inl err \<Rightarrow> Inl err
         | Inr rect \<Rightarrow>
             (case rect of (r0, r1, r2, r3) \<Rightarrow>
                Inr \<lparr>rect_left = min r0 r2, rect_top = min r1 r3,
                     rect_width = \<bar>r0 - r2\<bar>, rect_height = \<bar>r1 - r3\<bar>\<rparr>))"

definition highlightMatch :: "Element option \<Rightarrow> Viewport \<Rightarrow> Box
    \<Rightarrow> js_error + Element \<times> js_error list" where
  \<comment> \<open>\<open>Inl\<close>: the call throws. \<open>Inr\<close>: the wrapper it leaves and what it wrote with
     \<^verbatim>\<open>console.warn\<close>. The wrapper is \<open>None\<close> when \<^verbatim>\<open>getElementById\<close> found nothing.
     The timer that removes the highlight after six seconds is not part of the model.\<close>
  "highlightMatch wrapper viewport item =
     (case wrapper of
        None \<Rightarrow> Inl (JsError ''TypeError'')
      | Some w \<Rightarrow>
          (let w1 = remove_highlights w
           in case surface_rect viewport item of
                Inr rect \<Rightarrow> Inr (appendChild w1 (Element [js ''highlight''] (Some rect) []), [])
              | Inl err \<Rightarrow> Inr (w1, [err])))"

section \<open>Notions of the specification\<close>

text \<open>
  The words of a string: its maximal runs without whitespace. They say what
  ``modulo whitespace normalization'' means.
\<close>

function tokens :: "jsstring \<Rightarrow> jsstring list" where
  "tokens [] = []"
| "tokens (c # cs) =
     (if is_ws c then tokens cs
      else (c # takeWhile (\<lambda>d. \<not> is_ws d) cs) # tokens (dropWhile (\<lambda>d. \<not> is_ws d) cs))"
  by pat_completeness auto
termination
  by (relation "measure length") (auto simp: less_Suc_eq_le length_dropWhile_le)

fun join_sp :: "jsstring list \<Rightarrow> jsstring" where
  \<comment> \<open>strings joined by single spaces\<close>
  "join_sp [] = []"
| "join_sp [s] = s"
| "join_sp (s # t # ts) = s @ SP # join_sp (t # ts)"


text \<open>
  The fragments merged into each line: the loop of the line reconstruction run again,
  keeping the fragments of the accumulator instead of their bounding box. The test
  is the one of the loop, against the first fragment of the group, whose \<open>y\<close> the
  accumulator keeps.
\<close>

fun group_step :: "TextItem list list \<times> TextItem list \<Rightarrow> TextItem
    \<Rightarrow> TextItem list list \<times> TextItem list" where
  "group_step (gs, []) item = (gs, [item])"
| "group_step (gs, f # fs) item =
     (if \<bar>sub_double (item_y f) (item_y item)\<bar> \<le> 3 then (gs, (f # fs) @ [item])
      else (gs @ [f # fs], [item]))"

definition merged_fragments :: "TextItem list \<Rightarrow> TextItem list list" where
  "merged_fragments items =
     (case foldl group_step ([], []) items of
        (gs, []) \<Rightarrow> gs
      | (gs, f # fs) \<Rightarrow> gs @ [f # fs])"



text \<open>The accumulator after the fragments of a group have gone through the loop.\<close>

definition line_of_group :: "nat \<Rightarrow> TextItem list \<Rightarrow> Line" where
  "line_of_group i g = foldl merge_item (new_line i (hd g)) (tl g)"

definition abs_state :: "nat \<Rightarrow> TextItem list list \<times> TextItem list \<Rightarrow> Line list \<times> Line option" where
  "abs_state i st =
     (case st of (gs, g) \<Rightarrow>
        (map (line_of_group i) gs, if g = [] then None else Some (line_of_group i g)))"

text \<open>
  The four entities of \<^verbatim>\<open>escapeHtml\<close>, and the property that an ampersand of a string
  always begins one of them.
\<close>

definition entities :: "jsstring set" where
  "entities = {js ''&amp;'', js ''&lt;'', js ''&gt;'', js ''&quot;''}"

definition amp_starts_entity :: "jsstring \<Rightarrow> bool" where
  "amp_starts_entity t =
     (\<forall>i < length t. t ! i = 38 \<longrightarrow> (\<exists>e \<in> entities. prefix e (drop i t)))"

text \<open>When the text content of a page cannot be obtained: at \<^verbatim>\<open>getPage\<close> or at \<^verbatim>\<open>getTextContent\<close>.\<close>

definition text_content_fails :: "PdfDocument \<Rightarrow> nat \<Rightarrow> bool" where
  "text_content_fails pdf k =
     (case getPage pdf k of
        Inl e \<Rightarrow> True
      | Inr page \<Rightarrow> (case page_getTextContent page of Inl e \<Rightarrow> True | Inr items \<Rightarrow> False))"

section \<open>Example inputs\<close>

text \<open>A fragment with the text \<open>s\<close> at \<open>(x, y)\<close>, of width \<open>w\<close>, in a 12 unit font.\<close>

definition frag :: "string \<Rightarrow> real \<Rightarrow> real \<Rightarrow> real \<Rightarrow> TextItem" where
  "frag s x y w =
     \<lparr>item_str = Some (js s),
      item_transform = \<lparr>tx0 = 12, tx1 = 0, tx2 = 0, tx3 = 12, tx4 = x, tx5 = y\<rparr>,
      item_width = Some w, item_height = None\<rparr>"

definition example_items :: "TextItem list" where
  "example_items =
     [frag '' Alpha'' 10 100 30, frag ''Beta  '' 45 103 20, frag ''   '' 0 90 5,
      frag ''Gamma'' 10 80 30]"



definition viewport_malformed :: Viewport where
  "viewport_malformed = \<lparr>convertToViewportRectangle = (\<lambda>r. Inl (JsError ''TypeError''))\<rparr>"

definition example_box :: Box where
  "example_box = \<lparr>box_x = Some 10, box_y = Some 100, box_width = Some 40, box_height = Some 12\<rparr>"

definition example_wrapper :: Element where
  "example_wrapper =
     Element [js ''page-wrapper''] None
       [Element [] None [],
        Element [js ''textLayer''] None [],
        Element [js ''highlight'']
          (Some \<lparr>rect_left = 15, rect_top = 1020, rect_width = 60, rect_height = 18\<rparr>) []]"

text \<open>What \<^verbatim>\<open>toLowerCase\<close> does to a string of ASCII characters.\<close>

definition ascii_lower :: "jsstring \<Rightarrow> jsstring" where
  "ascii_lower s = map (\<lambda>c. if 65 \<le> c \<and> c \<le> 90 then c + 32 else c) s"









text \<open>The doubles nearest to 19.56, 18.97, 41.62 and 17.72.\<close>

definition d19_56 :: real where
  "d19_56 = 5505650544460431 / 2 ^ 48"

definition d18_97 :: real where
  "d18_97 = 667447538525143 / 2 ^ 45"

definition d41_62 :: real where
  "d41_62 = 5857494265348751 / 2 ^ 47"

definition d17_72 :: real where
  "d17_72 = 623467073414103 / 2 ^ 45"

definition text_line :: "string \<Rightarrow> nat \<Rightarrow> Line" where
  "text_line s p =
     \<lparr>line_text = js s, line_x = 72, line_y = 700, line_width = 200, line_height = 12,
      line_pageNum = p\<rparr>"


definition fuse_everything :: fuse where
  "fuse_everything c opts q = map (\<lambda>l. \<lparr>match_item = l, match_score = 0\<rparr>) c"

text \<open>
  A document of two pages whose second page has no text content to give, the file it
  comes from, and a session that holds an earlier document.
\<close>

definition example_pdf :: PdfDocument where
  "example_pdf =
     \<lparr>numPages = 2,
      getPage = (\<lambda>n.
        if n = 1 then Inr \<lparr>page_getTextContent = Inr example_items, page_render = Inr ()\<rparr>
        else if n = 2 then
          Inr \<lparr>page_getTextContent = Inl (JsError ''text content''), page_render = Inr ()\<rparr>
        else Inl (JsError ''Invalid page request''))\<rparr>"

definition example_file :: "string \<Rightarrow> File" where
  "example_file t = \<lparr>file_type = js t, file_name = js ''report.pdf'', file_arrayBuffer = Inr [37, 80, 68, 70]\<rparr>"

definition example_session :: Session where
  "example_session =
     \<lparr>gPdf = Some example_pdf, corpus = replicate 31 (text_line ''Quarterly Revenue Report'' 1),
      renderedPages = {1}, pdfContainer = [1], resultsPanel = PanelNoResultsYet,
      status = StExtracted 31, pageCountDisplay = Some 2, alerts = [], console = []\<rparr>"

section \<open>Rounding to the nearest double\<close>

lemma rne_le: "t \<le> of_int k \<Longrightarrow> rne t \<le> k"
proof -
  assume t: "t \<le> of_int k"
  show ?thesis
  proof (cases "t = of_int k")
    case True
    then show ?thesis by (simp add: rne_def)
  next
    case False
    with t have "t < of_int k" by simp
    then have "\<lfloor>t\<rfloor> < k" by (simp add: floor_less_iff)
    then show ?thesis by (simp add: rne_def Let_def)
  qed
qed

lemma rne_ge: "of_int k \<le> t \<Longrightarrow> k \<le> rne t"
proof -
  assume "of_int k \<le> t"
  then have "k \<le> \<lfloor>t\<rfloor>" by (simp add: le_floor_iff)
  then show ?thesis by (simp add: rne_def Let_def)
qed

lemma rne_of_int [simp]: "rne (of_int k) = k"
  by (simp add: rne_def)

lemma rne_le_even_iff:
  assumes "even n"
  shows "rne t \<le> n \<longleftrightarrow> t \<le> of_int n + 1 / 2"
proof
  assume le: "rne t \<le> n"
  show "t \<le> of_int n + 1 / 2"
  proof (rule ccontr)
    assume "\<not> t \<le> of_int n + 1 / 2"
    then have gt: "of_int n + 1 / 2 < t" by simp
    then have "of_int n \<le> t" by simp
    then have fl: "n \<le> \<lfloor>t\<rfloor>" by (simp add: le_floor_iff)
    show False
    proof (cases "\<lfloor>t\<rfloor> = n")
      case True
      with gt have "1 / 2 < t - of_int \<lfloor>t\<rfloor>" by simp
      then have "rne t = \<lfloor>t\<rfloor> + 1" by (simp add: rne_def Let_def)
      with True le show False by simp
    next
      case False
      with fl have "n + 1 \<le> \<lfloor>t\<rfloor>" by simp
      moreover have "\<lfloor>t\<rfloor> \<le> rne t" by (simp add: rne_def Let_def)
      ultimately show False using le by simp
    qed
  qed
next
  assume le: "t \<le> of_int n + 1 / 2"
  show "rne t \<le> n"
  proof (cases "t \<le> of_int n")
    case True
    then show ?thesis by (rule rne_le)
  next
    case False
    then have "of_int n < t" by simp
    with le have fl: "\<lfloor>t\<rfloor> = n" by (simp add: floor_eq_iff)
    from le fl have "t - of_int \<lfloor>t\<rfloor> \<le> 1 / 2" by simp
    then show ?thesis using fl assms by (simp add: rne_def Let_def)
  qed
qed

lemma two_powi_pos [simp]: "0 < (2::real) powi e"
  by (simp add: zero_less_power_int)

lemma two_powr_of_int: "(2::real) powr real_of_int k = 2 powi k"
  by (simp add: powr_real_of_int')

lemma floor_log2_iff:
  "0 < x \<Longrightarrow> \<lfloor>log 2 x\<rfloor> = e \<longleftrightarrow> 2 powi e \<le> x \<and> x < 2 powi (e + 1)"
  using floor_log_eq_powr_iff [of x 2 e] unfolding two_powr_of_int by simp

lemma floor_log2_bounds:
  assumes "0 < x"
  shows "2 powi \<lfloor>log 2 x\<rfloor> \<le> x" and "x < 2 powi (\<lfloor>log 2 x\<rfloor> + 1)"
  using floor_log2_iff [OF assms, of "\<lfloor>log 2 x\<rfloor>"] by simp_all

lemma floor_log2_eq:
  assumes "0 < x" and "2 powi e \<le> x" and "x < 2 powi (e + 1)"
  shows "\<lfloor>log 2 x\<rfloor> = e"
  using floor_log2_iff [OF assms(1), of e] assms(2,3) by simp

lemma expo_eq:
  assumes "0 < x" and "2 powi e \<le> x" and "x < 2 powi (e + 1)" and "- 1022 \<le> e"
  shows "expo x = e"
  using floor_log2_eq [OF assms(1-3)] assms(4) by (simp add: expo_def)

lemma expo_upper: "0 < x \<Longrightarrow> x < 2 powi (expo x + 1)"
proof -
  assume x: "0 < x"
  have "x < 2 powi (\<lfloor>log 2 x\<rfloor> + 1)" by (rule floor_log2_bounds(2) [OF x])
  also have "\<dots> \<le> 2 powi (expo x + 1)"
    by (rule power_int_increasing) (simp_all add: expo_def)
  finally show ?thesis .
qed

lemma expo_lower: "0 < x \<Longrightarrow> - 1022 < expo x \<Longrightarrow> 2 powi expo x \<le> x"
  using floor_log2_bounds(1) [of x] by (simp add: expo_def max_def split: if_splits)

lemma expo_mono: "0 < x \<Longrightarrow> x \<le> y \<Longrightarrow> expo x \<le> expo y"
proof -
  assume "0 < x" and "x \<le> y"
  then have "log 2 x \<le> log 2 y" by (simp add: log_mono)
  then have "\<lfloor>log 2 x\<rfloor> \<le> \<lfloor>log 2 y\<rfloor>" by (rule floor_mono)
  then show ?thesis by (simp add: expo_def)
qed

lemma two_powi_split: "(2::real) powi (e + 1) = 2 ^ 53 * 2 powi (e - 52)"
proof -
  have "e + 1 = 53 + (e - 52)" by simp
  then have "(2::real) powi (e + 1) = 2 powi (53 + (e - 52))" by (rule arg_cong)
  also have "\<dots> = 2 powi 53 * 2 powi (e - 52)" by (subst power_int_add) simp_all
  finally show ?thesis by simp
qed

lemma two_powi_split': "(2::real) powi e = 2 ^ 52 * 2 powi (e - 52)"
proof -
  have "e = 52 + (e - 52)" by simp
  then have "(2::real) powi e = 2 powi (52 + (e - 52))" by (rule arg_cong)
  also have "\<dots> = 2 powi 52 * 2 powi (e - 52)" by (subst power_int_add) simp_all
  finally show ?thesis by simp
qed

lemma round_mag_nonneg: "0 \<le> x \<Longrightarrow> 0 \<le> round_mag x"
proof -
  assume "0 \<le> x"
  then have "of_int 0 \<le> x / 2 powi (expo x - 52)" by simp
  then have "0 \<le> rne (x / 2 powi (expo x - 52))" by (rule rne_ge)
  then show ?thesis by (simp add: round_mag_def)
qed

lemma round_mag_upper: "0 < x \<Longrightarrow> round_mag x \<le> 2 powi (expo x + 1)"
proof -
  assume x: "0 < x"
  let ?u = "(2::real) powi (expo x - 52)"
  have "x < 2 ^ 53 * ?u" using expo_upper [OF x] by (simp only: two_powi_split)
  then have "x / ?u \<le> of_int (2 ^ 53)" by (simp add: pos_divide_le_eq)
  then have "rne (x / ?u) \<le> 2 ^ 53" by (rule rne_le)
  then have "real_of_int (rne (x / ?u)) \<le> 2 ^ 53"
    by (metis of_int_le_iff of_int_numeral of_int_power)
  then have "real_of_int (rne (x / ?u)) * ?u \<le> 2 ^ 53 * ?u"
    by (simp add: mult_right_mono)
  then show ?thesis by (simp only: round_mag_def two_powi_split)
qed

lemma round_mag_lower: "0 < x \<Longrightarrow> - 1022 < expo x \<Longrightarrow> 2 powi expo x \<le> round_mag x"
proof -
  assume x: "0 < x" and e: "- 1022 < expo x"
  let ?u = "(2::real) powi (expo x - 52)"
  have "2 ^ 52 * ?u \<le> x" using expo_lower [OF x e] by (simp only: two_powi_split' [symmetric])
  then have "of_int (2 ^ 52) \<le> x / ?u" by (simp add: pos_le_divide_eq)
  then have "2 ^ 52 \<le> rne (x / ?u)" by (rule rne_ge)
  then have "2 ^ 52 \<le> real_of_int (rne (x / ?u))"
    by (metis of_int_le_iff of_int_numeral of_int_power)
  then have "2 ^ 52 * ?u \<le> real_of_int (rne (x / ?u)) * ?u"
    by (simp add: mult_right_mono)
  then show ?thesis by (simp only: round_mag_def two_powi_split' [symmetric])
qed

lemma round_double_0 [simp]: "round_double 0 = 0"
  by (simp add: round_double_def)

lemma round_double_pos: "0 < x \<Longrightarrow> round_double x = round_mag x"
  by (simp add: round_double_def)


lemma round_double_minus: "round_double (- x) = - round_double x"
  by (simp add: round_double_def sgn_minus)

lemma round_double_nonneg: "0 \<le> x \<Longrightarrow> 0 \<le> round_double x"
  by (cases "x = 0") (simp_all add: round_double_pos round_mag_nonneg)

lemma abs_round_double: "\<bar>round_double x\<bar> = round_double \<bar>x\<bar>"
proof (cases "0 \<le> x")
  case True
  then show ?thesis using round_double_nonneg [of x] by simp
next
  case False
  then have "0 \<le> - x" by simp
  then have "0 \<le> round_double (- x)" by (rule round_double_nonneg)
  with False show ?thesis by (simp add: round_double_minus)
qed

lemma round_mag_eval:
  assumes "0 < x" and "2 powi e \<le> x" and "x < 2 powi (e + 1)" and "- 1022 \<le> e"
  shows "round_mag x = of_int (rne (x / 2 powi (e - 52))) * 2 powi (e - 52)"
  using expo_eq [OF assms] by (simp add: round_mag_def)

lemma round_double_eval:
  assumes "0 < x" and "2 powi e \<le> x" and "x < 2 powi (e + 1)" and "- 1022 \<le> e"
  shows "round_double x = of_int (rne (x / 2 powi (e - 52))) * 2 powi (e - 52)"
  using round_mag_eval [OF assms] assms(1) by (simp add: round_double_pos)

lemma expo_le_0: "0 < a \<Longrightarrow> a < 2 \<Longrightarrow> expo a \<le> 0"
proof -
  assume a: "0 < a" "a < 2"
  have "\<lfloor>log 2 a\<rfloor> \<le> 0"
  proof (rule ccontr)
    assume "\<not> \<lfloor>log 2 a\<rfloor> \<le> 0"
    then have "1 \<le> \<lfloor>log 2 a\<rfloor>" by simp
    then have "(2::real) powi 1 \<le> 2 powi \<lfloor>log 2 a\<rfloor>"
      by (intro power_int_increasing) simp_all
    also have "\<dots> \<le> a" by (rule floor_log2_bounds(1) [OF a(1)])
    finally show False using a(2) by simp
  qed
  then show ?thesis by (simp add: expo_def)
qed

lemma round_mag_le_3_iff:
  assumes "0 < a"
  shows "round_mag a \<le> 3 \<longleftrightarrow> a \<le> 3 + 1 / 2 ^ 52"
proof -
  consider "a < 2" | "2 \<le> a" "a < 4" | "4 \<le> a" by linarith
  then show ?thesis
  proof cases
    case 1
    have "round_mag a \<le> 2 powi (expo a + 1)" by (rule round_mag_upper [OF assms])
    also have "\<dots> \<le> 2 powi 1"
      using expo_le_0 [OF assms 1] by (intro power_int_increasing) simp_all
    finally have "round_mag a \<le> 3" by simp
    moreover have "a \<le> 3 + 1 / 2 ^ 52" using 1 by simp
    ultimately show ?thesis by simp
  next
    case 2
    have e: "expo a = 1" using assms 2 by (intro expo_eq) simp_all
    have m: "round_mag a = of_int (rne (a * 2 ^ 51)) / 2 ^ 51"
      by (simp add: round_mag_def e)
    have "round_mag a \<le> 3 \<longleftrightarrow> real_of_int (rne (a * 2 ^ 51)) \<le> of_int (3 * 2 ^ 51)"
      unfolding m by (simp add: pos_divide_le_eq)
    also have "\<dots> \<longleftrightarrow> rne (a * 2 ^ 51) \<le> 3 * 2 ^ 51"
      by (simp only: of_int_le_iff)
    also have "\<dots> \<longleftrightarrow> a * 2 ^ 51 \<le> of_int (3 * 2 ^ 51) + 1 / 2"
      by (rule rne_le_even_iff) simp
    also have "\<dots> \<longleftrightarrow> a \<le> 3 + 1 / 2 ^ 52"
      by (simp add: field_simps)
    finally show ?thesis .
  next
    case 3
    have "expo 4 = 2" by (intro expo_eq) simp_all
    with expo_mono [of 4 a] 3 have e: "2 \<le> expo a" by simp
    have "(2::real) powi 2 \<le> 2 powi expo a"
      using e by (intro power_int_increasing) simp_all
    also have "\<dots> \<le> round_mag a"
      using e by (intro round_mag_lower [OF assms]) simp
    finally have "\<not> round_mag a \<le> 3" by simp
    moreover have "\<not> a \<le> 3 + 1 / 2 ^ 52" using 3 by (simp add: field_simps)
    ultimately show ?thesis by simp
  qed
qed

lemma abs_round_double_le_3_iff: "\<bar>round_double d\<bar> \<le> 3 \<longleftrightarrow> \<bar>d\<bar> \<le> 3 + 1 / 2 ^ 52"
proof (cases "d = 0")
  case True
  then show ?thesis by simp
next
  case False
  then have "0 < \<bar>d\<bar>" by simp
  then show ?thesis
    unfolding abs_round_double by (simp add: round_double_pos round_mag_le_3_iff)
qed

lemma round_mag_exact:
  assumes "0 < x" and "x / 2 powi (expo x - 52) = of_int k"
  shows "round_mag x = x"
proof -
  have "round_mag x = of_int k * 2 powi (expo x - 52)"
    by (simp add: round_mag_def assms(2))
  also have "\<dots> = x" using assms(2) by (simp add: field_simps)
  finally show ?thesis .
qed

lemma round_mag_of_nat:
  assumes "0 < n" and "n \<le> 2 ^ 53"
  shows "round_mag (real n) = real n"
proof (cases "n = 2 ^ 53")
  case True
  have n: "real n = 2 ^ 53" using True by simp
  have e: "expo (2 ^ 53) = 53" by (intro expo_eq) simp_all
  have "(2 ^ 53 :: real) / 2 powi (expo (2 ^ 53) - 52) = of_int (2 ^ 52)"
    unfolding e by simp
  then have "round_mag (2 ^ 53) = 2 ^ 53" by (intro round_mag_exact) simp_all
  then show ?thesis by (simp only: n)
next
  case False
  with assms have lt: "real n < 2 ^ 53" by (metis of_nat_less_numeral_power_cancel_iff le_neq_implies_less of_nat_numeral of_nat_power)
  have pos: "0 < real n" using assms(1) by simp
  have ge: "1 \<le> real n" using assms(1) by simp
  let ?e = "expo (real n)"
  have lo: "0 \<le> ?e"
  proof -
    have "expo 1 = 0" by (intro expo_eq) simp_all
    with expo_mono [of 1 "real n"] ge show ?thesis by simp
  qed
  have hi: "?e \<le> 52"
  proof (rule ccontr)
    assume "\<not> ?e \<le> 52"
    then have e53: "53 \<le> ?e" by simp
    then have "(2::real) powi 53 \<le> 2 powi ?e" by (intro power_int_increasing) simp_all
    also have "\<dots> \<le> real n" using e53 by (intro expo_lower [OF pos]) simp
    finally show False using lt by simp
  qed
  obtain j where j: "52 - ?e = int j" using hi by (metis nonneg_int_cases diff_ge_0_iff_ge)
  have "(2::real) powi (?e - 52) = 1 / 2 ^ j"
  proof -
    have "?e - 52 = - int j" using j by simp
    then have "(2::real) powi (?e - 52) = 2 powi (- int j)" by (rule arg_cong)
    also have "\<dots> = 1 / 2 ^ j" by (simp add: power_int_minus field_simps)
    finally show ?thesis .
  qed
  then have "real n / 2 powi (?e - 52) = of_int (int n * 2 ^ j)" by simp
  with pos show ?thesis by (rule round_mag_exact)
qed

lemma round_double_of_nat: "n \<le> 2 ^ 53 \<Longrightarrow> round_double (real n) = real n"
  by (cases "n = 0") (simp_all add: round_double_pos round_mag_of_nat)

lemma round_double_numeral [simp]:
  "numeral k \<le> (2 ^ 53 :: nat) \<Longrightarrow> round_double (numeral k) = numeral k"
  using round_double_of_nat [of "numeral k"] by simp

lemma round_double_neg_numeral [simp]:
  "numeral k \<le> (2 ^ 53 :: nat) \<Longrightarrow> round_double (- numeral k) = - numeral k"
  by (simp add: round_double_minus)

lemma round_double_1 [simp]: "round_double 1 = 1"
  using round_double_of_nat [of 1] by simp

lemma round_double_boundary: "round_double (3 - (- 1 / 2 ^ 60)) = 3"
  by (subst round_double_eval [where e = 1]) (simp_all add: rne_def)





section \<open>Whitespace normalisation and words\<close>

lemma is_ws_SP [simp]: "is_ws SP"
  by (simp add: is_ws_def SP_def)

lemma join_sp_Cons: "join_sp (t # ts) = t @ (if ts = [] then [] else SP # join_sp ts)"
  by (cases ts) simp_all

lemma tokens_nonempty: "t \<in> set (tokens s) \<Longrightarrow> t \<noteq> [] \<and> (\<forall>c \<in> set t. \<not> is_ws c)"
proof (induction s arbitrary: t rule: tokens.induct)
  case 1
  then show ?case by simp
next
  case (2 c cs)
  show ?case
  proof (cases "is_ws c")
    case True
    with 2 show ?thesis by simp
  next
    case False
    with 2(3) have "t = c # takeWhile (\<lambda>d. \<not> is_ws d) cs \<or> t \<in> set (tokens (dropWhile (\<lambda>d. \<not> is_ws d) cs))"
      by simp
    then show ?thesis
    proof
      assume t: "t = c # takeWhile (\<lambda>d. \<not> is_ws d) cs"
      have "\<forall>d \<in> set (takeWhile (\<lambda>d. \<not> is_ws d) cs). \<not> is_ws d"
        using set_takeWhileD by fastforce
      with t False show ?thesis by simp
    next
      assume "t \<in> set (tokens (dropWhile (\<lambda>d. \<not> is_ws d) cs))"
      with 2(2) [OF False] show ?thesis by blast
    qed
  qed
qed

lemma join_sp_tokens_Nil: "join_sp (tokens s) = [] \<longleftrightarrow> tokens s = []"
proof (cases "tokens s")
  case Nil
  then show ?thesis by simp
next
  case (Cons t ts)
  then have "t \<noteq> []" using tokens_nonempty [of t s] by simp
  with Cons show ?thesis by (simp add: join_sp_Cons)
qed

lemma tokens_dropWhile_ws: "tokens (dropWhile is_ws s) = tokens s"
  by (induction s) simp_all

lemma trim_end_Cons_ws:
  "is_ws c \<Longrightarrow> trim_end (c # t) = (if trim_end t = [] then [] else c # trim_end t)"
  by (auto simp: trim_end_def dropWhile_append)

lemma trim_end_Cons_nws: "\<not> is_ws c \<Longrightarrow> trim_end (c # t) = c # trim_end t"
  by (auto simp: trim_end_def dropWhile_append)

lemma trim_end_collapse:
  "trim_end (collapse_ws s) =
     (if s \<noteq> [] \<and> is_ws (hd s) \<and> tokens s \<noteq> [] then [SP] else []) @ join_sp (tokens s)"
proof (induction s rule: collapse_ws.induct)
  case 1
  then show ?case by (simp add: trim_end_def)
next
  case (2 c cs)
  show ?case
  proof (cases "is_ws c")
    case True
    let ?d = "dropWhile is_ws cs"
    have hd: "?d = [] \<or> \<not> is_ws (hd ?d)"
      using hd_dropWhile [of is_ws cs] by blast
    from 2(1) [OF True] hd have ih: "trim_end (collapse_ws ?d) = join_sp (tokens ?d)"
      by auto
    show ?thesis using True ih
      by (simp add: trim_end_Cons_ws tokens_dropWhile_ws join_sp_tokens_Nil)
  next
    case False
    note ih = 2(2) [OF False]
    show ?thesis
    proof (cases cs)
      case Nil
      with False show ?thesis by (simp add: trim_end_def)
    next
      case (Cons c' cs')
      show ?thesis
      proof (cases "is_ws c'")
        case True
        with False ih Cons show ?thesis
          by (simp add: trim_end_Cons_nws join_sp_Cons)
      next
        case F: False
        with False ih Cons show ?thesis
          by (simp add: trim_end_Cons_nws join_sp_Cons)
      qed
    qed
  qed
qed

lemma dropWhile_collapse_ws:
  "d = [] \<or> \<not> is_ws (hd d) \<Longrightarrow> dropWhile is_ws (collapse_ws d) = collapse_ws d"
  by (cases d) auto

lemma normalize_text_tokens: "normalize_text s = join_sp (tokens s)"
proof (cases s)
  case Nil
  then show ?thesis by (simp add: normalize_text_def trim_def trim_end_def)
next
  case (Cons c cs)
  show ?thesis
  proof (cases "is_ws c")
    case True
    let ?d = "dropWhile is_ws cs"
    have hd: "?d = [] \<or> \<not> is_ws (hd ?d)"
      using hd_dropWhile [of is_ws cs] by blast
    have "dropWhile is_ws (collapse_ws ?d) = collapse_ws ?d"
      using hd by (rule dropWhile_collapse_ws)
    then have "normalize_text s = trim_end (collapse_ws ?d)"
      using Cons True by (simp add: normalize_text_def trim_def)
    also have "\<dots> = join_sp (tokens ?d)"
      using hd by (auto simp: trim_end_collapse)
    finally show ?thesis using Cons True by (simp add: tokens_dropWhile_ws)
  next
    case False
    then have "normalize_text s = trim_end (collapse_ws s)"
      using Cons by (simp add: normalize_text_def trim_def)
    also have "\<dots> = join_sp (tokens s)"
      using Cons False by (subst trim_end_collapse) simp
    finally show ?thesis .
  qed
qed

lemma tokens_append_ws:
  "is_ws w \<Longrightarrow> tokens (a @ w # b) = tokens a @ tokens b"
proof (induction a rule: tokens.induct)
  case 1
  then show ?case by simp
next
  case (2 c cs)
  show ?case
  proof (cases "is_ws c")
    case True
    with 2 show ?thesis by simp
  next
    case False
    have tw: "takeWhile (\<lambda>d. \<not> is_ws d) (cs @ w # b) = takeWhile (\<lambda>d. \<not> is_ws d) cs"
      using \<open>is_ws w\<close> by (induction cs) auto
    have dw: "dropWhile (\<lambda>d. \<not> is_ws d) (cs @ w # b) = dropWhile (\<lambda>d. \<not> is_ws d) cs @ w # b"
      using \<open>is_ws w\<close> by (induction cs) auto
    from 2(2) [OF False \<open>is_ws w\<close>] False show ?thesis
      by (simp add: tw dw)
  qed
qed

lemma tokens_join_sp: "tokens (join_sp ss) = concat (map tokens ss)"
proof (induction ss rule: join_sp.induct)
  case (3 s t ts)
  then show ?case by (simp add: tokens_append_ws)
qed simp_all

section \<open>The line loop and the groups of fragments\<close>

lemma item_w_simp: "item_w item = (case item_width item of None \<Rightarrow> 0 | Some w \<Rightarrow> w)"
  by (simp add: item_w_def split: option.splits)

lemma line_of_group_single [simp]: "line_of_group i [f] = new_line i f"
  by (simp add: line_of_group_def)

lemma line_of_group_snoc:
  "g \<noteq> [] \<Longrightarrow> line_of_group i (g @ [item]) = merge_item (line_of_group i g) item"
  by (cases g) (simp_all add: line_of_group_def)

lemma merge_item_fields:
  "line_x (merge_item c item) = line_x c"
  "line_y (merge_item c item) = line_y c"
  "line_pageNum (merge_item c item) = line_pageNum c"
  "line_text (merge_item c item) = line_text c @ SP # item_s item"
  "line_width (merge_item c item) =
     sub_double
       (max (add_double (line_x c) (line_width c)) (add_double (item_x item) (item_w item)))
       (line_x c)"
  "line_height (merge_item c item) = max (line_height c) (item_h item)"
  by (simp_all add: merge_item_def Let_def)

lemma join_sp_snoc: "ss \<noteq> [] \<Longrightarrow> join_sp (ss @ [s]) = join_sp ss @ SP # s"
  by (induction ss rule: join_sp.induct) simp_all

lemma line_of_group_props:
  assumes "g \<noteq> []"
  shows "line_x (line_of_group i g) = item_x (hd g)"
    and "line_y (line_of_group i g) = item_y (hd g)"
    and "line_pageNum (line_of_group i g) = i"
    and "line_text (line_of_group i g) = join_sp (map item_s g)"
    and "line_height (line_of_group i g) = Max (item_h ` set g)"
  using assms
proof (induction g rule: rev_nonempty_induct)
  case (single f)
  {
    case 1 show ?case by (simp add: new_line_def)
  next
    case 2 show ?case by (simp add: new_line_def)
  next
    case 3 show ?case by (simp add: new_line_def)
  next
    case 4 show ?case by (simp add: new_line_def)
  next
    case 5 show ?case by (simp add: new_line_def)
  }
next
  case (snoc f g)
  {
    case 1 show ?case using snoc by (simp add: line_of_group_snoc merge_item_fields)
  next
    case 2 show ?case using snoc by (simp add: line_of_group_snoc merge_item_fields)
  next
    case 3 show ?case using snoc by (simp add: line_of_group_snoc merge_item_fields)
  next
    case 4 show ?case using snoc by (simp add: line_of_group_snoc merge_item_fields join_sp_snoc)
  next
    case 5
    have "Max (item_h ` set (g @ [f])) = max (Max (item_h ` set g)) (item_h f)"
      using snoc(1) by (simp add: max.commute)
    then show ?case using snoc by (simp add: line_of_group_snoc merge_item_fields)
  }
qed





lemma line_step_group_step:
  "line_step i (abs_state i st) item = abs_state i (group_step st item)"
proof (cases st)
  case (Pair gs g)
  show ?thesis
  proof (cases g)
    case Nil
    with Pair show ?thesis by (simp add: abs_state_def)
  next
    case (Cons f fs)
    have y: "line_y (line_of_group i (f # fs)) = item_y f"
      using line_of_group_props(2) [of "f # fs" i] by simp
    have m: "line_of_group i ((f # fs) @ [item]) = merge_item (line_of_group i (f # fs)) item"
      by (rule line_of_group_snoc) simp
    show ?thesis using Pair Cons y m by (simp add: abs_state_def)
  qed
qed

lemma foldl_line_step_groups:
  "foldl (line_step i) (abs_state i st) items = abs_state i (foldl group_step st items)"
  by (induction items arbitrary: st) (simp_all add: line_step_group_step)

lemma run_items_groups:
  "run_items i items = abs_state i (foldl group_step ([], []) items)"
  using foldl_line_step_groups [of i "([], [])" items]
  by (simp add: run_items_def abs_state_def)

lemma page_lines_groups:
  "page_lines i items = map (line_of_group i) (merged_fragments items)"
  by (simp add: page_lines_def run_items_groups merged_fragments_def abs_state_def
      split: prod.splits list.splits)

lemma group_step_inv:
  assumes "group_step (gs, g) item = (gs', g')"
  shows "concat gs' @ g' = concat gs @ g @ [item]"
    and "[] \<notin> set gs \<Longrightarrow> [] \<notin> set gs'"
    and "g' \<noteq> []"
    and "length gs' + (if g' = [] then 0 else 1) \<le> length gs + (if g = [] then 0 else 1) + 1"
  using assms by (cases g; auto split: if_splits)+

lemma foldl_group_step_inv:
  assumes "foldl group_step (gs, g) items = (gs', g')"
  shows "concat gs' @ g' = concat gs @ g @ items
         \<and> ([] \<notin> set gs \<longrightarrow> [] \<notin> set gs')
         \<and> length gs' + (if g' = [] then 0 else 1) \<le> length gs + (if g = [] then 0 else 1) + length items"
  using assms
proof (induction items arbitrary: gs g)
  case Nil
  then show ?case by simp
next
  case (Cons item items)
  obtain gs1 g1 where s: "group_step (gs, g) item = (gs1, g1)"
    by (cases "group_step (gs, g) item")
  with Cons.prems have "foldl group_step (gs1, g1) items = (gs', g')" by simp
  from Cons.IH [OF this] group_step_inv [OF s] show ?case by auto
qed

lemma merged_fragments_props:
  "concat (merged_fragments items) = items"
  "[] \<notin> set (merged_fragments items)"
  "length (merged_fragments items) \<le> length items"
proof -
  obtain gs g where f: "foldl group_step ([], []) items = (gs, g)"
    by (cases "foldl group_step ([], []) items")
  from foldl_group_step_inv [OF f]
  have 1: "concat gs @ g = items" and 2: "[] \<notin> set gs"
    and 3: "length gs + (if g = [] then 0 else 1) \<le> length items"
    by auto
  show "concat (merged_fragments items) = items"
    using f 1 by (cases g) (simp_all add: merged_fragments_def)
  show "[] \<notin> set (merged_fragments items)"
    using f 2 by (cases g) (simp_all add: merged_fragments_def)
  show "length (merged_fragments items) \<le> length items"
    using f 3 by (cases g) (simp_all add: merged_fragments_def)
qed

lemma reconstruct_groups:
  "reconstruct i items =
     concat (map (\<lambda>g. normalize_line (line_of_group i g)) (merged_fragments items))"
  by (simp add: reconstruct_def page_lines_groups comp_def)

section \<open>Properties of the line reconstruction\<close>





lemma join_sp_append:
  "as \<noteq> [] \<Longrightarrow> bs \<noteq> [] \<Longrightarrow> join_sp (as @ bs) = join_sp as @ SP # join_sp bs"
proof (induction as rule: join_sp.induct)
  case 1
  then show ?case by simp
next
  case (2 s)
  then show ?case by (cases bs) simp_all
next
  case (3 s t ts)
  then show ?case by simp
qed

lemma join_sp_Nil_iff: "\<forall>t \<in> set ts. t \<noteq> [] \<Longrightarrow> join_sp ts = [] \<longleftrightarrow> ts = []"
  by (cases ts) (simp_all add: join_sp_Cons)

lemma join_sp_filter_concat:
  assumes "\<forall>ts \<in> set tss. \<forall>t \<in> set ts. t \<noteq> []"
  shows "join_sp (filter (\<lambda>s. s \<noteq> []) (map join_sp tss)) = join_sp (concat tss)
         \<and> (filter (\<lambda>s. s \<noteq> []) (map join_sp tss) = [] \<longleftrightarrow> concat tss = [])"
  using assms
proof (induction tss)
  case Nil
  then show ?case by simp
next
  case (Cons ts tss)
  then have ih: "join_sp (filter (\<lambda>s. s \<noteq> []) (map join_sp tss)) = join_sp (concat tss)"
    and ih2: "filter (\<lambda>s. s \<noteq> []) (map join_sp tss) = [] \<longleftrightarrow> concat tss = []"
    by simp_all
  have ne: "join_sp ts = [] \<longleftrightarrow> ts = []"
    using Cons.prems by (intro join_sp_Nil_iff) simp
  show ?case
  proof (cases "ts = []")
    case True
    then show ?thesis using ih ih2 by simp
  next
    case False
    show ?thesis
    proof (cases "concat tss = []")
      case True
      have "concat (ts # tss) = ts" by (simp only: concat.simps True append_Nil2)
      moreover have "filter (\<lambda>s. s \<noteq> []) (map join_sp tss) = []" using True ih2 by blast
      ultimately show ?thesis using False ne by (simp del: concat.simps)
    next
      case F2: False
      with False have "join_sp (concat (ts # tss)) = join_sp ts @ SP # join_sp (concat tss)"
        by (simp add: join_sp_append)
      moreover have "filter (\<lambda>s. s \<noteq> []) (map join_sp tss) \<noteq> []" using F2 ih2 by simp
      ultimately show ?thesis using False ne ih by (simp add: join_sp_Cons)
    qed
  qed
qed

lemma length_concat_le:
  "\<forall>x \<in> set xs. length (f x) \<le> 1 \<Longrightarrow> length (concat (map f xs)) \<le> length xs"
proof (induction xs)
  case Nil
  then show ?case by simp
next
  case (Cons a xs)
  then have "length (f a) \<le> 1" and "length (concat (map f xs)) \<le> length xs"
    by simp_all
  then show ?case by simp
qed

lemma concat_filter_single:
  "concat (map (\<lambda>g. filter P [h g]) gs) = filter P (map h gs)"
  by (induction gs) simp_all

lemma concat_map_concat:
  "concat (map (\<lambda>g. concat (map f g)) gs) = concat (map f (concat gs))"
  by (induction gs) simp_all

lemma normalize_line_length: "length (normalize_line l) \<le> 1"
  by (simp add: normalize_line_def Let_def)

lemma line_text_normalize_line:
  "map line_text (normalize_line l) =
     filter (\<lambda>s. s \<noteq> []) [normalize_text (line_text l)]"
  by (simp add: normalize_line_def Let_def)

lemma texts_of_reconstruct:
  "map line_text (reconstruct i items) =
     filter (\<lambda>s. s \<noteq> [])
       (map join_sp (map (\<lambda>g. tokens (join_sp (map item_s g))) (merged_fragments items)))"
proof -
  have "map line_text (reconstruct i items) =
      concat (map (\<lambda>g. filter (\<lambda>s. s \<noteq> []) [normalize_text (line_text (line_of_group i g))])
        (merged_fragments items))"
    by (simp add: reconstruct_groups map_concat comp_def line_text_normalize_line)
  also have "\<dots> = concat (map (\<lambda>g. filter (\<lambda>s. s \<noteq> []) [join_sp (tokens (join_sp (map item_s g)))])
        (merged_fragments items))"
  proof -
    have "\<forall>g \<in> set (merged_fragments items).
        line_text (line_of_group i g) = join_sp (map item_s g)"
      using merged_fragments_props(2) [of items] line_of_group_props(4) by metis
    then show ?thesis
      by (intro arg_cong [where f = concat] map_cong refl) (simp add: normalize_text_tokens)
  qed
  also have "\<dots> = filter (\<lambda>s. s \<noteq> [])
       (map join_sp (map (\<lambda>g. tokens (join_sp (map item_s g))) (merged_fragments items)))"
    by (subst concat_filter_single) (simp add: comp_def)
  finally show ?thesis .
qed

text \<open>The definitions that evaluate the reconstruction on a concrete page.\<close>

lemmas eval_defs =
  reconstruct_def page_lines_def run_items_def frag_def js_def is_ws_def SP_def
  normalize_line_def normalize_text_def trim_def trim_end_def new_line_def merge_item_def
  item_s_def item_x_def item_y_def item_h_def item_w_def Let_def example_items_def
  add_double_def sub_double_def merged_fragments_def

text \<open>
  C3. Line reconstruction keeps the order of the text. For every sequence of fragments
  the page yields at most as many lines as it has fragments, and the texts of the lines,
  joined by single spaces in their order, are the texts of the fragments, joined by
  single spaces in their order, with runs of whitespace collapsed to one space and
  leading and trailing whitespace trimmed. Lines that are empty after normalisation add
  nothing, and are dropped.
\<close>

theorem reconstruct_order_preserving:
  "length (reconstruct i items) \<le> length items \<and>
   join_sp (map line_text (reconstruct i items)) = normalize_text (join_sp (map item_s items))"
proof
  have "length (reconstruct i items) \<le> length (merged_fragments items)"
    unfolding reconstruct_groups
    by (rule length_concat_le) (simp add: normalize_line_def Let_def)
  then show "length (reconstruct i items) \<le> length items"
    using merged_fragments_props(3) [of items] by simp
next
  let ?tss = "map (\<lambda>g. tokens (join_sp (map item_s g))) (merged_fragments items)"
  have tok: "\<forall>ts \<in> set ?tss. \<forall>t \<in> set ts. t \<noteq> []"
    using tokens_nonempty by auto
  have "join_sp (map line_text (reconstruct i items)) = join_sp (concat ?tss)"
    unfolding texts_of_reconstruct using join_sp_filter_concat [OF tok] by simp
  also have "concat ?tss = concat (map (\<lambda>g. concat (map tokens (map item_s g))) (merged_fragments items))"
    by (simp add: tokens_join_sp comp_def)
  also have "\<dots> = concat (map tokens (map item_s (concat (merged_fragments items))))"
    by (simp add: concat_map_concat [symmetric] comp_def)
  also have "\<dots> = tokens (join_sp (map item_s items))"
    by (simp add: merged_fragments_props(1) tokens_join_sp)
  finally show "join_sp (map line_text (reconstruct i items)) =
      normalize_text (join_sp (map item_s items))"
    by (simp add: normalize_text_tokens)
qed

theorem reconstruct_order_preserving_witness:
  "length (reconstruct 1 example_items) \<le> 4 \<and>
   join_sp (map line_text (reconstruct 1 example_items)) = js ''Alpha Beta Gamma''"
proof -
  have "normalize_text (join_sp (map item_s example_items)) = js ''Alpha Beta Gamma''"
    by (simp add: eval_defs)
  moreover have "length example_items = 4" by (simp add: example_items_def)
  ultimately show ?thesis
    using reconstruct_order_preserving [of 1 example_items] by simp
qed

text \<open>Once a fragment has gone through the loop there is an accumulator.\<close>

lemma run_items_accumulator:
  "pre \<noteq> [] \<Longrightarrow> \<exists>lines current. run_items i pre = (lines, Some current)"
proof (induction pre rule: rev_nonempty_induct)
  case (single x)
  then show ?case by (simp add: run_items_def)
next
  case (snoc x xs)
  then obtain lines current where "run_items i xs = (lines, Some current)" by blast
  then show ?case by (simp add: run_items_def)
qed

text \<open>
  C2, as stated, fails next to the boundary. An accumulator at \<open>y = 3\<close> and a fragment at
  \<open>y = - 1 / 2 ^ 60\<close>, both doubles, are more than 3 units apart, but the subtraction of
  the loop rounds their difference to 3: the fragment is merged, and no line is
  flushed.
\<close>

theorem line_step_boundary_counterexample:
  "\<bar>item_y (frag ''B'' 45 (- 1 / 2 ^ 60) 20) - item_y (frag ''A'' 10 3 30)\<bar> > 3
   \<and> run_items 1 [frag ''A'' 10 3 30, frag ''B'' 45 (- 1 / 2 ^ 60) 20] =
       ([], Some \<lparr>line_text = js ''A B'', line_x = 10, line_y = 3, line_width = 55,
                  line_height = 12, line_pageNum = 1\<rparr>)"
proof -
  have "sub_double 3 (- 1 / 2 ^ 60) = 3"
    unfolding sub_double_def by (rule round_double_boundary)
  moreover have "sub_double 65 10 = 55" by (simp add: sub_double_def)
  ultimately show ?thesis
    by (simp add: run_items_def frag_def js_def SP_def new_line_def merge_item_def
        item_s_def item_x_def item_y_def item_h_def item_w_def Let_def add_double_def)
qed

text \<open>
  C2, amended. Whatever fragments came before, when the loop reaches a fragment with
  an accumulator \<open>current\<close> in place, the test of the loop, on the difference of the two
  \<open>y\<close> as the double subtraction gives it, holds exactly when the two \<open>y\<close> are at most
  \<open>3 + 1 / 2 ^ 52\<close> apart: half a unit in the last place above 3. If they are, and so
  whenever they are at most 3 apart, the fragment is merged (its text appended after
  one space, the width extended to \<open>max (current.x + current.width) (x + w) - current.x\<close>
  in double arithmetic, the height to the larger of the two, everything else kept, no
  line flushed). If they are further apart, as they are at 4 units, the accumulator is
  flushed to \<open>lines\<close> and a new one starts from the fragment.
\<close>

theorem line_step_merge_or_flush:
  assumes "run_items i pre = (lines, Some current)"
  shows "(\<bar>sub_double (line_y current) (item_y item)\<bar> \<le> 3
            \<longleftrightarrow> \<bar>item_y item - line_y current\<bar> \<le> 3 + 1 / 2 ^ 52)
       \<and> (\<bar>item_y item - line_y current\<bar> \<le> 3 + 1 / 2 ^ 52 \<longrightarrow>
            run_items i (pre @ [item]) =
              (lines,
               Some \<lparr>line_text = line_text current @ SP # item_s item,
                     line_x = line_x current, line_y = line_y current,
                     line_width =
                       sub_double
                         (max (add_double (line_x current) (line_width current))
                            (add_double (item_x item) (item_w item)))
                         (line_x current),
                     line_height = max (line_height current) (item_h item),
                     line_pageNum = line_pageNum current\<rparr>))
       \<and> (\<bar>item_y item - line_y current\<bar> > 3 + 1 / 2 ^ 52 \<longrightarrow>
            run_items i (pre @ [item]) =
              (lines @ [current],
               Some \<lparr>line_text = item_s item, line_x = item_x item, line_y = item_y item,
                     line_width = item_w item, line_height = item_h item,
                     line_pageNum = i\<rparr>))"
proof -
  have step: "run_items i (pre @ [item]) = line_step i (lines, Some current) item"
    using assms by (simp add: run_items_def)
  have d: "\<bar>sub_double (line_y current) (item_y item)\<bar> \<le> 3
      \<longleftrightarrow> \<bar>item_y item - line_y current\<bar> \<le> 3 + 1 / 2 ^ 52"
    unfolding sub_double_def abs_round_double_le_3_iff by (simp only: abs_minus_commute)
  show ?thesis
  proof (cases "\<bar>item_y item - line_y current\<bar> \<le> 3 + 1 / 2 ^ 52")
    case True
    with d have "\<bar>sub_double (line_y current) (item_y item)\<bar> \<le> 3" by blast
    then have "line_step i (lines, Some current) item = (lines, Some (merge_item current item))"
      by simp
    with True d show ?thesis
      unfolding step by (simp add: merge_item_def Let_def)
  next
    case False
    with d have "\<not> \<bar>sub_double (line_y current) (item_y item)\<bar> \<le> 3" by blast
    then have "line_step i (lines, Some current) item =
        (lines @ [current], Some (new_line i item))"
      by simp
    with False d show ?thesis
      unfolding step by (simp add: new_line_def)
  qed
qed

text \<open>The boundary: a fragment 3 units away is merged, one 4 units away starts a line.\<close>

theorem line_step_merge_or_flush_witness:
  "run_items 1 [frag ''Alpha'' 10 100 30, frag ''Beta'' 45 103 20] =
     ([], Some \<lparr>line_text = js ''Alpha Beta'', line_x = 10, line_y = 100, line_width = 55,
                line_height = 12, line_pageNum = 1\<rparr>)
   \<and> run_items 1 [frag ''Alpha'' 10 100 30, frag ''Beta'' 45 104 20] =
     ([\<lparr>line_text = js ''Alpha'', line_x = 10, line_y = 100, line_width = 30,
        line_height = 12, line_pageNum = 1\<rparr>],
      Some \<lparr>line_text = js ''Beta'', line_x = 45, line_y = 104, line_width = 20,
            line_height = 12, line_pageNum = 1\<rparr>)"
proof -
  let ?c = "\<lparr>line_text = js ''Alpha'', line_x = 10, line_y = 100, line_width = 30,
        line_height = 12, line_pageNum = 1\<rparr>"
  have pre: "run_items 1 [frag ''Alpha'' 10 100 30] = ([], Some ?c)"
    by (simp add: eval_defs)
  show ?thesis
    using line_step_merge_or_flush [OF pre, of "frag ''Beta'' 45 103 20"]
      line_step_merge_or_flush [OF pre, of "frag ''Beta'' 45 104 20"]
    by (simp add: frag_def js_def SP_def item_s_def item_x_def item_y_def item_h_def item_w_def
        add_double_def sub_double_def)
qed


text \<open>The four coordinates of the page below are doubles, and so are the sums it forms.\<close>

lemma example_doubles:
  "round_double d19_56 = d19_56" "round_double d18_97 = d18_97"
  "round_double d41_62 = d41_62" "round_double d17_72 = d17_72"
  unfolding d19_56_def d18_97_def d41_62_def d17_72_def
  by ((subst round_double_eval [where e = 4], simp_all add: rne_def)[1],
      (subst round_double_eval [where e = 4], simp_all add: rne_def)[1],
      (subst round_double_eval [where e = 5], simp_all add: rne_def)[1],
      (subst round_double_eval [where e = 4], simp_all add: rne_def)[1])





section \<open>Properties of escaping\<close>

lemma escape_char_cases:
  "escape_char ch =
     (if ch = 38 then js ''&amp;'' else if ch = 60 then js ''&lt;''
      else if ch = 62 then js ''&gt;'' else if ch = 34 then js ''&quot;'' else [ch])"
  by (simp add: escape_char_def escape_table_def)

lemma escape_char_no_raw: "set (escape_char ch) \<inter> {60, 62, 34} = {}"
  by (simp add: escape_char_cases js_def)

lemma escape_char_shape:
  "(escape_char ch \<in> entities \<and> 38 \<notin> set (tl (escape_char ch)))
   \<or> (escape_char ch = [ch] \<and> ch \<noteq> 38)"
  by (simp add: escape_char_cases entities_def js_def)

lemma amp_starts_entity_append:
  assumes "amp_starts_entity b"
    and "(a \<in> entities \<and> 38 \<notin> set (tl a)) \<or> (\<exists>c. a = [c] \<and> c \<noteq> 38)"
  shows "amp_starts_entity (a @ b)"
  unfolding amp_starts_entity_def
proof (intro allI impI)
  fix i
  assume i: "i < length (a @ b)" and amp: "(a @ b) ! i = 38"
  show "\<exists>e \<in> entities. prefix e (drop i (a @ b))"
  proof (cases "i < length a")
    case True
    have "i = 0"
    proof (rule ccontr)
      assume "i \<noteq> 0"
      then obtain j where j: "i = Suc j" by (cases i) auto
      from True amp have ai: "a ! i = 38" by (simp add: nth_append)
      from True j have "j < length (tl a)" by simp
      then have "tl a ! j \<in> set (tl a)" by (rule nth_mem)
      moreover have "tl a ! j = a ! i" using True j by (simp add: nth_tl)
      ultimately have "38 \<in> set (tl a)" using ai by simp
      moreover from True j have "length a \<noteq> 1" by simp
      ultimately show False using assms(2) by auto
    qed
    moreover from amp True \<open>i = 0\<close> have "a ! 0 = 38" by (simp add: nth_append)
    ultimately have "a \<in> entities" using assms(2) by auto
    then show ?thesis using \<open>i = 0\<close> by (intro bexI [of _ a]) simp_all
  next
    case False
    then have "(a @ b) ! i = b ! (i - length a)" and "i - length a < length b"
      and "drop i (a @ b) = drop (i - length a) b"
      using i by (simp_all add: nth_append)
    with amp assms(1) show ?thesis
      unfolding amp_starts_entity_def by metis
  qed
qed

lemma amp_starts_entity_escapeHtml: "amp_starts_entity (escapeHtml s)"
proof (induction s)
  case Nil
  then show ?case by (simp add: escapeHtml_def amp_starts_entity_def)
next
  case (Cons c s)
  have "amp_starts_entity (escape_char c @ escapeHtml s)"
    using Cons escape_char_shape [of c] by (intro amp_starts_entity_append) auto
  then show ?case by (simp add: escapeHtml_def)
qed

lemma escapeHtml_no_raw: "set (escapeHtml s) \<inter> {60, 62, 34} = {}"
proof -
  have "\<forall>c \<in> set s. set (escape_char c) \<inter> {60, 62, 34} = {}"
    using escape_char_no_raw by blast
  then show ?thesis unfolding escapeHtml_def by (induction s) auto
qed

text \<open>
  The ampersand that begins an entity is itself in the output, as in
  \<^verbatim>\<open>escapeHtml('<')\<close>. A raw character of the output is one that is not part of an
  entity: any \<^verbatim>\<open><\<close>, \<^verbatim>\<open>>\<close> or \<^verbatim>\<open>"\<close>, and an \<^verbatim>\<open>&\<close> that does not begin one of the four
  entities.
\<close>

lemma escapeHtml_entity_ampersand:
  "escapeHtml (js ''<'') = js ''&lt;'' \<and> 38 \<in> set (escapeHtml (js ''<''))"
  by (simp add: escapeHtml_def escape_char_cases js_def)

text \<open>
  C10. \<^verbatim>\<open>escapeHtml\<close> replaces every \<^verbatim>\<open>&\<close>, \<^verbatim>\<open><\<close>, \<^verbatim>\<open>>\<close> and \<^verbatim>\<open>"\<close> by its entity and
  leaves every other character, the single quote among them, as it is. For every input
  the output holds none of the four characters raw: no \<^verbatim>\<open><\<close>, \<^verbatim>\<open>>\<close> or \<^verbatim>\<open>"\<close> at all, and
  no \<^verbatim>\<open>&\<close> but the first character of one of the four entities.
\<close>

theorem escapeHtml_entities:
  "escapeHtml s =
     concat (map (\<lambda>ch. if ch = 38 then js ''&amp;'' else if ch = 60 then js ''&lt;''
                        else if ch = 62 then js ''&gt;'' else if ch = 34 then js ''&quot;''
                        else [ch]) s)
   \<and> set (escapeHtml s) \<inter> {60, 62, 34} = {}
   \<and> amp_starts_entity (escapeHtml s)"
proof (intro conjI)
  show "escapeHtml s =
     concat (map (\<lambda>ch. if ch = 38 then js ''&amp;'' else if ch = 60 then js ''&lt;''
                        else if ch = 62 then js ''&gt;'' else if ch = 34 then js ''&quot;''
                        else [ch]) s)"
  proof -
    have "escape_char =
        (\<lambda>ch. if ch = 38 then js ''&amp;'' else if ch = 60 then js ''&lt;''
              else if ch = 62 then js ''&gt;'' else if ch = 34 then js ''&quot;'' else [ch])"
      by (rule ext) (rule escape_char_cases)
    then show ?thesis unfolding escapeHtml_def by (rule arg_cong)
  qed
  show "set (escapeHtml s) \<inter> {60, 62, 34} = {}" by (rule escapeHtml_no_raw)
  show "amp_starts_entity (escapeHtml s)" by (rule amp_starts_entity_escapeHtml)
qed

theorem escapeHtml_entities_witness:
  "escapeHtml (js ''a<b & \"c\" it's > d'') = js ''a&lt;b &amp; &quot;c&quot; it's &gt; d''
   \<and> set (js ''a&lt;b &amp; &quot;c&quot; it's &gt; d'') \<inter> {60, 62, 34} = {}
   \<and> amp_starts_entity (js ''a&lt;b &amp; &quot;c&quot; it's &gt; d'')"
proof -
  let ?s = "js ''a<b & \"c\" it's > d''"
  have e: "escapeHtml ?s = js ''a&lt;b &amp; &quot;c&quot; it's &gt; d''"
    by (simp add: escapeHtml_def escape_char_cases js_def)
  from escapeHtml_entities [of ?s]
  have "set (escapeHtml ?s) \<inter> {60, 62, 34} = {}" and "amp_starts_entity (escapeHtml ?s)"
    by blast+
  then show ?thesis unfolding e by blast
qed

section \<open>Properties of highlighting\<close>



lemma is_highlight_remove_highlights [simp]:
  "is_highlight (remove_highlights k) = is_highlight k"
  by (cases k) (simp add: is_highlight_def)

lemma querySelectorAll_remove_highlights [simp]:
  "querySelectorAll_highlight (remove_highlights w) = []"
proof (induction w)
  case (Element cls st kids)
  then have "\<forall>k \<in> set kids. querySelectorAll_highlight (remove_highlights k) = []"
    by simp
  then show ?case by (simp add: comp_def)
qed

text \<open>
  C9. The highlights of the wrapper are removed before the geometry is mapped. So when
  the mapping throws, the call still returns, with a warning on the console, and the
  wrapper it leaves is the old one without any highlight.
\<close>

theorem highlightMatch_mapping_failure:
  assumes "surface_rect viewport item = Inl err"
  shows "highlightMatch (Some w) viewport item = Inr (remove_highlights w, [err])
         \<and> querySelectorAll_highlight (remove_highlights w) = []"
  using assms by (simp add: highlightMatch_def)

theorem highlightMatch_mapping_failure_witness:
  "querySelectorAll_highlight example_wrapper \<noteq> []
   \<and> highlightMatch (Some example_wrapper) viewport_malformed example_box
     = Inr (Element [js ''page-wrapper''] None
             [Element [] None [], Element [js ''textLayer''] None []],
            [JsError ''TypeError''])"
proof -
  have f: "surface_rect viewport_malformed example_box = Inl (JsError ''TypeError'')"
    by (simp add: surface_rect_def viewport_malformed_def)
  have r: "remove_highlights example_wrapper =
      Element [js ''page-wrapper''] None [Element [] None [], Element [js ''textLayer''] None []]"
    by (simp add: example_wrapper_def is_highlight_def js_def)
  have q: "querySelectorAll_highlight example_wrapper \<noteq> []"
    by (simp add: example_wrapper_def is_highlight_def js_def)
  show ?thesis
    using highlightMatch_mapping_failure [OF f, of example_wrapper] q unfolding r by simp
qed

section \<open>Properties of search\<close>







lemma entry_targets:
  "map (entry_target \<circ> render_entry) (enumerate n ms) = map match_item ms"
proof -
  have eq: "entry_target \<circ> render_entry = match_item \<circ> snd"
    by (rule ext) (simp add: render_entry_def split: prod.splits)
  have "map (match_item \<circ> snd) (enumerate n ms) = map match_item (map snd (enumerate n ms))"
    by (simp only: map_map)
  then show ?thesis by (simp only: eq map_snd_enumerate)
qed

text \<open>
  C5. A search on a loaded document with a query that is not blank hands the first 30
  of its results, and no more, to \<^verbatim>\<open>renderResults\<close>, one entry of the list for each, and
  the status reports the number of all results. With no result nothing is handed over,
  and the status says that no match was found.
\<close>

theorem runSearch_cap_and_count:
  assumes "gPdf s \<noteq> None" and "trim box_value \<noteq> []"
  shows "(let q = trim box_value;
              results = search_results fuse_search toLowerCase (corpus s) q threshold;
              s' = runSearch fuse_search toLowerCase box_value threshold s
          in (results \<noteq> [] \<longrightarrow>
                s' = setStatus (StFound (length results) (length (take 30 results)))
                       (renderResults (take 30 results) (setStatus (StSearching q) s))
                \<and> length (take 30 results) \<le> 30
                \<and> (\<exists>entries. resultsPanel s' = PanelMatches entries
                      \<and> length entries = min 30 (length results)
                      \<and> map entry_target entries = map match_item (take 30 results))
                \<and> status s' = StFound (length results) (min 30 (length results)))
           \<and> (results = [] \<longrightarrow>
                resultsPanel s' = PanelNoMatchesFound \<and> status s' = StNoMatchesFound))"
proof -
  let ?q = "trim box_value"
  let ?rs = "search_results fuse_search toLowerCase (corpus s) ?q threshold"
  let ?s' = "runSearch fuse_search toLowerCase box_value threshold s"
  have q: "\<not> length ?q < 1" using assms(2) by (cases ?q) simp_all
  from assms(1) obtain pdf where pdf: "gPdf s = Some pdf" by auto
  have c: "corpus (setStatus (StSearching ?q) s) = corpus s" by (simp add: setStatus_def)
  have empty: "?rs = [] \<Longrightarrow> ?s' = setStatus StNoMatchesFound
      ((setStatus (StSearching ?q) s)\<lparr>resultsPanel := PanelNoMatchesFound\<rparr>)"
    using pdf q by (simp add: runSearch_def Let_def c)
  have found: "?rs \<noteq> [] \<Longrightarrow> ?s' = setStatus (StFound (length ?rs) (length (take 30 ?rs)))
      (renderResults (take 30 ?rs) (setStatus (StSearching ?q) s))"
    using pdf q by (simp add: runSearch_def Let_def c)
  have panel: "?rs \<noteq> [] \<Longrightarrow> resultsPanel ?s' =
      PanelMatches (map render_entry (enumerate 0 (take 30 ?rs)))"
    using found by (simp add: setStatus_def renderResults_def)
  have "?rs \<noteq> [] \<Longrightarrow> \<exists>entries. resultsPanel ?s' = PanelMatches entries
      \<and> length entries = min 30 (length ?rs)
      \<and> map entry_target entries = map match_item (take 30 ?rs)"
    using panel by (simp add: entry_targets min.commute)
  moreover have "?rs \<noteq> [] \<Longrightarrow> status ?s' = StFound (length ?rs) (min 30 (length ?rs))"
    using found by (simp add: setStatus_def min.commute)
  moreover have "?rs = [] \<Longrightarrow> resultsPanel ?s' = PanelNoMatchesFound \<and> status ?s' = StNoMatchesFound"
    using empty by (simp add: setStatus_def)
  ultimately show ?thesis using found unfolding Let_def by auto
qed

theorem runSearch_cap_and_count_witness:
  "status (runSearch fuse_everything ascii_lower (js '' Revenue '') 0 example_session)
     = StFound 31 30
   \<and> (\<exists>entries.
         resultsPanel (runSearch fuse_everything ascii_lower (js '' Revenue '') 0 example_session)
           = PanelMatches entries \<and> length entries = 30)"
proof -
  have g: "gPdf example_session \<noteq> None" by (simp add: example_session_def)
  have t: "trim (js '' Revenue '') \<noteq> []"
    by (simp add: trim_def trim_end_def js_def is_ws_def)
  have r: "search_results fuse_everything ascii_lower (corpus example_session)
      (trim (js '' Revenue '')) 0
      = replicate 31 \<lparr>match_item = text_line ''Quarterly Revenue Report'' 1, match_score = 0\<rparr>"
    by (simp add: search_results_def fuse_everything_def example_session_def Let_def)
  show ?thesis
    using runSearch_cap_and_count [OF g t, of fuse_everything ascii_lower 0]
    unfolding Let_def r by auto
qed

section \<open>Properties of loading a document\<close>

lemma extract_pages_fails:
  "k \<in> set ks \<Longrightarrow> text_content_fails pdf k \<Longrightarrow> \<exists>e. extract_pages pdf out ks = Inl e"
proof (induction ks arbitrary: out)
  case Nil
  then show ?case by simp
next
  case (Cons i ks)
  show ?case
  proof (cases "text_content_fails pdf i")
    case True
    then show ?thesis
      by (auto simp: text_content_fails_def split: sum.splits)
  next
    case False
    with Cons.prems have "k \<in> set ks" by auto
    from Cons.IH [OF this Cons.prems(2)] show ?thesis
      by (auto split: sum.splits)
  qed
qed

lemma extractTextCorpus_fails:
  assumes "1 \<le> k" and "k \<le> numPages pdf" and "text_content_fails pdf k"
  shows "\<exists>e. extractTextCorpus pdf = Inl e"
  unfolding extractTextCorpus_def
  using assms by (intro extract_pages_fails [of k]) auto

text \<open>
  C8. A file whose type is not \<^verbatim>\<open>application/pdf\<close> is turned away with an alert, and
  that is all: the document, the corpus, the set of rendered pages, the page wrappers,
  the results panel, the status and the page count stay as they were.
\<close>

theorem loadPdfFile_wrong_type:
  assumes "file_type f \<noteq> js ''application/pdf''"
  shows "loadPdfFile getDocument s (Some f) =
           (s\<lparr>alerts := alerts s @ [js ''Please provide a PDF file.'']\<rparr>, None)
         \<and> gPdf (fst (loadPdfFile getDocument s (Some f))) = gPdf s
         \<and> corpus (fst (loadPdfFile getDocument s (Some f))) = corpus s
         \<and> renderedPages (fst (loadPdfFile getDocument s (Some f))) = renderedPages s
         \<and> pdfContainer (fst (loadPdfFile getDocument s (Some f))) = pdfContainer s
         \<and> resultsPanel (fst (loadPdfFile getDocument s (Some f))) = resultsPanel s
         \<and> status (fst (loadPdfFile getDocument s (Some f))) = status s
         \<and> pageCountDisplay (fst (loadPdfFile getDocument s (Some f))) = pageCountDisplay s"
  using assms by (simp add: loadPdfFile_def alert_def)

theorem loadPdfFile_wrong_type_witness:
  "loadPdfFile (\<lambda>b. Inr example_pdf) example_session (Some (example_file ''image/png''))
     = (example_session\<lparr>alerts := [js ''Please provide a PDF file.'']\<rparr>, None)"
proof -
  have t: "file_type (example_file ''image/png'') \<noteq> js ''application/pdf''"
    by (simp add: example_file_def js_def)
  have a: "alerts example_session = []" by (simp add: example_session_def)
  show ?thesis
    using loadPdfFile_wrong_type [OF t, of "\<lambda>b. Inr example_pdf" example_session]
    by (simp add: a)
qed

text \<open>
  C1, on the code. When the document decodes and the text content of one of its pages
  cannot be obtained, the load ends without a rejection: the build of the corpus is
  abandoned, the corpus is empty, no page is rendered and the status reports the
  error. But the session is not empty: \<^verbatim>\<open>gPdf\<close> holds the decoded document and the page
  count shows its pages, since the handler of the error resets neither.
\<close>

theorem loadPdfFile_extraction_failure:
  assumes "file_type f = js ''application/pdf''"
    and "file_arrayBuffer f = Inr buf"
    and "getDocument buf = Inr pdf"
    and "1 \<le> k" and "k \<le> numPages pdf" and "text_content_fails pdf k"
  shows "\<exists>s'. loadPdfFile getDocument s (Some f) = (s', None)
           \<and> corpus s' = [] \<and> renderedPages s' = {} \<and> pdfContainer s' = []
           \<and> status s' = StErrorLoading
           \<and> gPdf s' = Some pdf \<and> pageCountDisplay s' = Some (numPages pdf)"
proof -
  from extractTextCorpus_fails [OF assms(4-6)]
  obtain e where e: "extractTextCorpus pdf = Inl e" by blast
  show ?thesis
    using assms(1-3) e
    by (simp add: loadPdfFile_def load_try_def clearAll_def setStatus_def console_error_def
        Let_def)
qed

theorem loadPdfFile_extraction_failure_witness:
  "gPdf (fst (loadPdfFile (\<lambda>b. Inr example_pdf) example_session
           (Some (example_file ''application/pdf'')))) = Some example_pdf
   \<and> corpus (fst (loadPdfFile (\<lambda>b. Inr example_pdf) example_session
           (Some (example_file ''application/pdf'')))) = []
   \<and> status (fst (loadPdfFile (\<lambda>b. Inr example_pdf) example_session
           (Some (example_file ''application/pdf'')))) = StErrorLoading"
proof -
  have t: "file_type (example_file ''application/pdf'') = js ''application/pdf''"
    by (simp add: example_file_def)
  have b: "file_arrayBuffer (example_file ''application/pdf'') = Inr [37, 80, 68, 70]"
    by (simp add: example_file_def)
  have d: "(\<lambda>b. Inr example_pdf) [37, 80, 68, 70 :: 8 word] = (Inr example_pdf :: js_error + PdfDocument)"
    by simp
  have k: "(1::nat) \<le> 2" "2 \<le> numPages example_pdf" "text_content_fails example_pdf 2"
    by (simp_all add: example_pdf_def text_content_fails_def)
  from loadPdfFile_extraction_failure [OF t b d k, of example_session]
  show ?thesis by auto
qed

end
